theory Spec2Isabelle
  imports Main "HOL-Library.AList" "HOL-Library.Sublist"
begin

section \<open>Errors and contexts\<close>

text \<open>
  Go errors form chains: \<^verbatim>\<open>fmt.Errorf("...: %w", err)\<close> wraps an inner error, and
  \<^verbatim>\<open>errors.Is(err, target)\<close> walks the chain. The two sentinel errors of package
  \<^verbatim>\<open>context\<close> are constructors of their own.
\<close>

datatype error =
    Canceled
  | DeadlineExceeded
  | ErrorString string
  | Wrapped string error

fun errors_Is :: "error \<Rightarrow> error \<Rightarrow> bool" where
  "errors_Is (Wrapped s inner) target =
     (Wrapped s inner = target \<or> errors_Is inner target)"
| "errors_Is err target = (err = target)"

text \<open>
  The test both loops apply to an error:
  \<^verbatim>\<open>errors.Is(err, context.Canceled) || errors.Is(err, context.DeadlineExceeded)\<close>.
\<close>

definition is_cancellation :: "error \<Rightarrow> bool" where
  "is_cancellation err \<longleftrightarrow> errors_Is err Canceled \<or> errors_Is err DeadlineExceeded"

text \<open>
  A \<^verbatim>\<open>context.Context\<close> on a logical clock: \<open>done_at\<close> is the instant at which its
  \<^verbatim>\<open>Done()\<close> channel is closed (\<open>None\<close>: never), \<open>cause\<close> is what \<^verbatim>\<open>Err()\<close> returns from
  then on.
\<close>

record Context =
  done_at :: "nat option"
  cause :: error

definition ctx_Err :: "Context \<Rightarrow> nat \<Rightarrow> error option" where
  "ctx_Err ctx now =
     (case done_at ctx of
        None \<Rightarrow> None
      | Some t \<Rightarrow> if t \<le> now then Some (cause ctx) else None)"

text \<open>
  What a call ends in: it returns a value, it panics, or it never returns.
\<close>

datatype 'a outcome = Returns 'a | Panics | Blocks

section \<open>Package messaging\<close>

text \<open>\<^verbatim>\<open>time.Duration\<close> counts nanoseconds.\<close>

definition Second :: int where
  "Second = 1000000000"

text \<open>
  \<^verbatim>\<open>kafka.Message\<close> as the reader delivers it (the fields \<^verbatim>\<open>Consume\<close> reads), and the
  \<^verbatim>\<open>Message\<close> handed to handlers. A byte slice is a \<open>string\<close> (a list of 8-bit
  characters); a nil map is \<open>None\<close>, a map an association list with distinct keys.
\<close>

record kafka_Header =
  hKey :: string
  hValue :: string

record kafka_Message =
  kTopic :: string
  kKey :: string
  kValue :: string
  kHeaders :: "kafka_Header list"
  kOffset :: int
  kTime :: int

record Message =
  Topic :: string
  Key :: string
  Value :: string
  Headers :: "(string \<times> string) list option"
  Offset :: int
  Time :: int

type_synonym 'h Handler = "Context \<Rightarrow> Message \<Rightarrow> 'h \<Rightarrow> error option outcome \<times> 'h"

text \<open>The struct literal \<^verbatim>\<open>wrapped := Message{...}\<close> of \<^verbatim>\<open>kafkaClient.Consume\<close>.\<close>

definition wrapped :: "kafka_Message \<Rightarrow> Message" where
  "wrapped msg =
     \<lparr> Topic = kTopic msg,
       Key = kKey msg,
       Value = kValue msg,
       Headers =
         (if length (kHeaders msg) = 0 then None
          else Some (fold (\<lambda>h m. AList.update (hKey h) (hValue h) m) (kHeaders msg) [])),
       Offset = kOffset msg,
       Time = kTime msg \<rparr>"

subsection \<open>Logging\<close>

datatype level = DebugLevel | InfoLevel | WarnLevel | ErrorLevel

datatype field =
    zap_Error error
  | zap_Int64 string int
  | zap_Int string int
  | zap_String string string

subsection \<open>The live log client\<close>

text \<open>
  The reader is the environment of \<^verbatim>\<open>Consume\<close>: a script holds what each successive
  \<^verbatim>\<open>FetchMessage\<close> call returns and, for a message, what \<^verbatim>\<open>CommitMessages\<close> returns if it
  is called on it. A script that has run out is a fetch that never returns.
\<close>

datatype fetched =
    FetchErr error
  | FetchMsg kafka_Message "error option"

text \<open>
  What a run of \<^verbatim>\<open>Consume\<close> does, in order: every call it makes on the reader, the
  logger, the clock and the handler, recorded when the call ends; a call of the handler is
  recorded with what it ended in, also when it panics or never returns.
\<close>

datatype kevent =
    KFetched kafka_Message
  | KFetchFailed error
  | KLog level string "field list"
  | KSleep int
  | KHandled Message "error option outcome"
  | KCommit kafka_Message "error option"

fun Consume ::
  "Context \<Rightarrow> 'h Handler \<Rightarrow> fetched list \<Rightarrow> 'h \<Rightarrow> error outcome \<times> kevent list \<times> 'h"
where
  "Consume ctx handler [] hs = (Blocks, [], hs)"
| "Consume ctx handler (FetchErr err # rest) hs =
     (if errors_Is err Canceled \<or> errors_Is err DeadlineExceeded
      then (Returns err, [KFetchFailed err], hs)
      else
        (case Consume ctx handler rest hs of
           (r, tr, hs') \<Rightarrow>
             (r, KFetchFailed err
                 # KLog ErrorLevel ''kafka fetch failed'' [zap_Error err]
                 # KSleep Second # tr, hs')))"
| "Consume ctx handler (FetchMsg msg cerr # rest) hs =
     (case handler ctx (wrapped msg) hs of
        (Returns (Some err), hs1) \<Rightarrow>
          (case Consume ctx handler rest hs1 of
             (r, tr, hs') \<Rightarrow>
               (r, KFetched msg
                   # KHandled (wrapped msg) (Returns (Some err))
                   # KLog ErrorLevel ''message handler failed''
                       [zap_Error err, zap_Int64 ''offset'' (kOffset msg)]
                   # tr, hs'))
      | (Returns None, hs1) \<Rightarrow>
          (case Consume ctx handler rest hs1 of
             (r, tr, hs') \<Rightarrow>
               (r, KFetched msg
                   # KHandled (wrapped msg) (Returns None)
                   # KCommit msg cerr
                   # (case cerr of
                        None \<Rightarrow> []
                      | Some e \<Rightarrow> [KLog WarnLevel ''commit failed'' [zap_Error e]])
                   @ tr, hs'))
      | (Panics, hs1) \<Rightarrow> (Panics, [KFetched msg, KHandled (wrapped msg) Panics], hs1)
      | (Blocks, hs1) \<Rightarrow> (Blocks, [KFetched msg, KHandled (wrapped msg) Blocks], hs1))"

text \<open>
  A delivery attempt is a round of the run: the events from one return of
  \<^verbatim>\<open>FetchMessage\<close> up to the next. \<open>rounds\<close> cuts a run into its rounds.
\<close>

fun is_fetch :: "kevent \<Rightarrow> bool" where
  "is_fetch (KFetched km) = True"
| "is_fetch (KFetchFailed err) = True"
| "is_fetch ev = False"

fun is_handled :: "kevent \<Rightarrow> bool" where
  "is_handled (KHandled m res) = True"
| "is_handled ev = False"

function rounds :: "kevent list \<Rightarrow> kevent list list" where
  "rounds [] = []"
| "rounds (ev # evs) =
     (ev # takeWhile (\<lambda>x. \<not> is_fetch x) evs) # rounds (dropWhile (\<lambda>x. \<not> is_fetch x) evs)"
  by pat_completeness auto
termination
  by (relation "measure length") (auto simp: le_imp_less_Suc length_dropWhile_le)

text \<open>The messages fetched, handed to the handler and committed in a run, in order.\<close>

fun fetched_msgs :: "kevent list \<Rightarrow> kafka_Message list" where
  "fetched_msgs [] = []"
| "fetched_msgs (KFetched km # evs) = km # fetched_msgs evs"
| "fetched_msgs (ev # evs) = fetched_msgs evs"

fun handled_msgs :: "kevent list \<Rightarrow> Message list" where
  "handled_msgs [] = []"
| "handled_msgs (KHandled m res # evs) = m # handled_msgs evs"
| "handled_msgs (ev # evs) = handled_msgs evs"

fun committed_msgs :: "kevent list \<Rightarrow> kafka_Message list" where
  "committed_msgs [] = []"
| "committed_msgs (KCommit km ce # evs) = km # committed_msgs evs"
| "committed_msgs (ev # evs) = committed_msgs evs"

fun script_msgs :: "fetched list \<Rightarrow> kafka_Message list" where
  "script_msgs [] = []"
| "script_msgs (FetchMsg km ce # rest) = km # script_msgs rest"
| "script_msgs (FetchErr err # rest) = script_msgs rest"

text \<open>What the run records when the reader returns an item of the script.\<close>

fun fetch_event :: "fetched \<Rightarrow> kevent" where
  "fetch_event (FetchErr err) = KFetchFailed err"
| "fetch_event (FetchMsg km ce) = KFetched km"

subsection \<open>The client interface and the noop client\<close>

text \<open>
  \<^verbatim>\<open>Client\<close> is an interface: an implementation has a state \<open>'c\<close> of its own, and
  \<^verbatim>\<open>Consume\<close> runs a handler over a state \<open>'w\<close>.
\<close>

record ('c, 'w) Client =
  Publish :: "Context \<Rightarrow> string \<Rightarrow> string \<Rightarrow> 'c \<Rightarrow> error option outcome \<times> 'c"
  Consume_of :: "Context \<Rightarrow> 'w Handler \<Rightarrow> 'c \<Rightarrow> 'w \<Rightarrow> error option outcome \<times> 'c \<times> 'w"
  Topic_of :: string

text \<open>
  \<^verbatim>\<open><-ctx.Done()\<close> started at \<open>now\<close>: the instant at which the receive completes, \<open>None\<close>
  when the context is never done.
\<close>

definition await_Done :: "Context \<Rightarrow> nat \<Rightarrow> nat option" where
  "await_Done ctx now = (case done_at ctx of None \<Rightarrow> None | Some t \<Rightarrow> Some (max now t))"

text \<open>The state of the noop client is the clock.\<close>

definition noopClient :: "string \<Rightarrow> (nat, 'w) Client" where
  "noopClient topic =
     \<lparr> Publish = (\<lambda>ctx key val now. (Returns None, now)),
       Consume_of = (\<lambda>ctx handler now w.
          (case await_Done ctx now of
             None \<Rightarrow> (Blocks, now, w)
           | Some t \<Rightarrow> (Returns (ctx_Err ctx t), t, w))),
       Topic_of = topic \<rparr>"

section \<open>Package worker\<close>

text \<open>
  The settings of \<^verbatim>\<open>config.Config\<close> the engine reads: \<^verbatim>\<open>Messaging.Enabled\<close>,
  \<^verbatim>\<open>Messaging.Workers.Enabled\<close> and \<^verbatim>\<open>Messaging.Workers.Concurrency\<close>.
\<close>

record Config =
  Messaging_Enabled :: bool
  Workers_Enabled :: bool
  Workers_Concurrency :: int

text \<open>A nil handler is \<open>None\<close>.\<close>

record 'u HandlerRegistration =
  regTopic :: string
  regHandler :: "'u Handler option"

text \<open>
  The state the dispatch closure of a worker loop runs on: the engine's logger, the
  state \<open>'u\<close> of the registered handlers, and (a ghost field) the messages on which the
  closure called a registered handler.
\<close>

datatype log_entry = Log level string "field list"

record 'u world =
  elog :: "log_entry list"
  invoked :: "Message list"
  ustate :: 'u

definition logger :: "level \<Rightarrow> string \<Rightarrow> field list \<Rightarrow> 'u world \<Rightarrow> 'u world" where
  "logger lvl msg fs w = w\<lparr>elog := elog w @ [Log lvl msg fs]\<rparr>"

datatype CancelFunc = CancelRun

text \<open>
  \<^verbatim>\<open>Engine\<close>: the registry is a Go map, here an association list with distinct keys;
  \<open>wg\<close> is the counter of the wait group.
\<close>

record ('c, 'u) Engine =
  client :: "('c, 'u world) Client"
  cfg :: Config
  registrations :: "(string \<times> 'u Handler option) list"
  cancel :: "CancelFunc option"
  wg :: "nat option"

record ('c, 'u) Params =
  pClient :: "('c, 'u world) Client"
  pConfig :: Config
  pRegistrations :: "'u HandlerRegistration list"

definition NewEngine :: "('c, 'u) Params \<Rightarrow> ('c, 'u) Engine" where
  "NewEngine p =
     \<lparr> client = pClient p,
       cfg = pConfig p,
       registrations =
         fold (\<lambda>r reg.
                 if regTopic r = [] \<or> regHandler r = None then reg
                 else AList.update (regTopic r) (regHandler r) reg)
              (pRegistrations p) [],
       cancel = None,
       wg = None \<rparr>"

text \<open>
  The loop \<^verbatim>\<open>for i := 0; i < concurrency; i++\<close> of \<^verbatim>\<open>start\<close>: the worker ids of the
  goroutines it starts, in order.
\<close>

function spawn :: "int \<Rightarrow> int \<Rightarrow> int list" where
  "spawn i concurrency = (if i < concurrency then i # spawn (i + 1) concurrency else [])"
  by pat_completeness auto
termination
  by (relation "measure (\<lambda>(i, concurrency). nat (concurrency - i))") auto

declare spawn.simps [simp del]

text \<open>
  \<^verbatim>\<open>start\<close> returns its error, the engine as it leaves it, what it logged and the worker
  ids of the loops it spawned. It does not read its context.
\<close>

definition start ::
  "('c, 'u) Engine \<Rightarrow> Context \<Rightarrow>
     error option \<times> ('c, 'u) Engine \<times> log_entry list \<times> int list"
where
  "start e ctx =
     (if \<not> Messaging_Enabled (cfg e) \<or> \<not> Workers_Enabled (cfg e)
      then (None, e, [Log InfoLevel ''worker engine disabled'' []], [])
      else if length (registrations e) = 0
      then (None, e, [Log InfoLevel ''worker engine has no handlers; skipping'' []], [])
      else
        (let concurrency =
               (if Workers_Concurrency (cfg e) \<le> 0 then 1 else Workers_Concurrency (cfg e));
             workers = spawn 0 concurrency
         in (None,
             e\<lparr>cancel := Some CancelRun, wg := Some (length workers)\<rparr>,
             [Log InfoLevel ''worker engine started'' [zap_Int ''workers'' concurrency]],
             workers)))"

text \<open>
  \<^verbatim>\<open>stop\<close>, called at \<open>now\<close> with the caller's context. \<open>loops_done\<close> is the instant at which
  the last worker loop returns (\<open>None\<close>: some loop never does). A \<^verbatim>\<open>select\<close> with both
  cases ready picks either: \<open>tie\<close> says which. The result is what \<^verbatim>\<open>stop\<close> returns, the
  instant at which it does, whether it called \<^verbatim>\<open>e.cancel\<close>, and what it logged.
\<close>

datatype select_case = CtxDone | OtherCase




text \<open>The closure \<^verbatim>\<open>consumeLoop\<close> hands to \<^verbatim>\<open>Consume\<close>. Calling a nil handler panics.\<close>

definition dispatch :: "('c, 'u) Engine \<Rightarrow> int \<Rightarrow> 'u world Handler" where
  "dispatch e workerID msgCtx msg w =
     (case map_of (registrations e) (Topic msg) of
        None \<Rightarrow>
          (Returns None, logger WarnLevel ''no handler for topic'' [zap_String ''topic'' (Topic msg)] w)
      | Some h \<Rightarrow>
          (let w1 = logger DebugLevel ''processing message''
                      [zap_String ''topic'' (Topic msg), zap_Int ''worker'' workerID] w
           in case h of
                None \<Rightarrow> (Panics, w1)
              | Some handler \<Rightarrow>
                  (case handler msgCtx msg (ustate w1) of
                     (res, u') \<Rightarrow> (res, w1\<lparr>invoked := invoked w1 @ [msg], ustate := u'\<rparr>))))"

text \<open>
  \<^verbatim>\<open>consumeLoop\<close>. The run context is cancelled by another goroutine, so what the loop
  sees of it is an input: per iteration, what \<^verbatim>\<open>ctx.Err()\<close> returns at the top and which
  case of the \<^verbatim>\<open>select\<close> fires if the iteration reaches it. When the observations run out
  the loop has not returned (\<open>None\<close>). Beside the states, the result holds the durations
  passed to \<^verbatim>\<open>time.After\<close>, in order.
\<close>

record probe =
  ctx_err :: "error option"
  fired :: select_case

fun consumeLoop_for ::
  "('c, 'u) Engine \<Rightarrow> Context \<Rightarrow> int \<Rightarrow> int \<Rightarrow> probe list \<Rightarrow> 'c \<Rightarrow> 'u world \<Rightarrow>
     unit outcome option \<times> int list \<times> 'c \<times> 'u world"
where
  "consumeLoop_for e ctx workerID backoff [] c w = (None, [], c, w)"
| "consumeLoop_for e ctx workerID backoff (p # ps) c w =
     (if ctx_err p \<noteq> None then (Some (Returns ()), [], c, w)
      else
        (case Consume_of (client e) ctx (dispatch e workerID) c w of
           (Panics, c1, w1) \<Rightarrow> (Some Panics, [], c1, w1)
         | (Blocks, c1, w1) \<Rightarrow> (Some Blocks, [], c1, w1)
         | (Returns None, c1, w1) \<Rightarrow> (Some (Returns ()), [], c1, w1)
         | (Returns (Some err), c1, w1) \<Rightarrow>
             if errors_Is err Canceled \<or> errors_Is err DeadlineExceeded
             then (Some (Returns ()), [], c1, w1)
             else
               (let w2 = logger ErrorLevel ''consume loop error'' [zap_Error err] w1 in
                case fired p of
                  CtxDone \<Rightarrow> (Some (Returns ()), [backoff], c1, w2)
                | OtherCase \<Rightarrow>
                    (case consumeLoop_for e ctx workerID
                            (if backoff < 30 * Second then backoff * 2 else backoff) ps c1 w2 of
                       (r, waits, c', w') \<Rightarrow> (r, backoff # waits, c', w')))))"

text \<open>\<^verbatim>\<open>backoff := time.Second\<close>, then the \<^verbatim>\<open>for\<close> statement.\<close>

definition consumeLoop ::
  "('c, 'u) Engine \<Rightarrow> Context \<Rightarrow> int \<Rightarrow> probe list \<Rightarrow> 'c \<Rightarrow> 'u world \<Rightarrow>
     unit outcome option \<times> int list \<times> 'c \<times> 'u world"
where
  "consumeLoop e ctx workerID ps c w = consumeLoop_for e ctx workerID Second ps c w"

section \<open>Auxiliary notions for the proofs\<close>

text \<open>A run of \<^verbatim>\<open>Consume\<close> is empty or starts with a fetch.\<close>

definition starts_with_fetch :: "kevent list \<Rightarrow> bool" where
  "starts_with_fetch tr \<longleftrightarrow> (case tr of [] \<Rightarrow> True | ev # evs \<Rightarrow> is_fetch ev)"

text \<open>The rounds \<^verbatim>\<open>Consume\<close> can produce, one for each path through the loop body.\<close>

definition retry_round :: "error \<Rightarrow> kevent list" where
  "retry_round err =
     [KFetchFailed err, KLog ErrorLevel ''kafka fetch failed'' [zap_Error err], KSleep Second]"

definition failed_round :: "kafka_Message \<Rightarrow> error \<Rightarrow> kevent list" where
  "failed_round km e =
     [KFetched km, KHandled (wrapped km) (Returns (Some e)),
      KLog ErrorLevel ''message handler failed'' [zap_Error e, zap_Int64 ''offset'' (kOffset km)]]"

definition commit_round :: "kafka_Message \<Rightarrow> error option \<Rightarrow> kevent list" where
  "commit_round km ce =
     KFetched km # KHandled (wrapped km) (Returns None) # KCommit km ce
       # (case ce of None \<Rightarrow> [] | Some e \<Rightarrow> [KLog WarnLevel ''commit failed'' [zap_Error e]])"

definition round_shape :: "kevent list \<Rightarrow> bool" where
  "round_shape rnd \<longleftrightarrow>
     (\<exists>err. is_cancellation err \<and> rnd = [KFetchFailed err]) \<or>
     (\<exists>err. \<not> is_cancellation err \<and> rnd = retry_round err) \<or>
     (\<exists>km e. rnd = failed_round km e) \<or>
     (\<exists>km ce. rnd = commit_round km ce) \<or>
     (\<exists>km. rnd = [KFetched km, KHandled (wrapped km) Panics]) \<or>
     (\<exists>km. rnd = [KFetched km, KHandled (wrapped km) Blocks])"

text \<open>The assignment to \<^verbatim>\<open>backoff\<close> at the end of an iteration of \<^verbatim>\<open>consumeLoop\<close>.\<close>

definition next_backoff :: "int \<Rightarrow> int" where
  "next_backoff backoff = (if backoff < 30 * Second then backoff * 2 else backoff)"

section \<open>Example inputs\<close>

text \<open>
  A context that is never done, messages of the topic \<^verbatim>\<open>orders.events\<close>, a handler that
  fails on its first call only, one that always succeeds and one that always fails, engines
  over the noop client, and a client whose \<^verbatim>\<open>Consume\<close> fails at once.
\<close>

definition background :: Context where
  "background = \<lparr> done_at = None, cause = Canceled \<rparr>"

definition order_msg :: "int \<Rightarrow> kafka_Message" where
  "order_msg off =
     \<lparr> kTopic = ''orders.events'', kKey = ''id'', kValue = ''{}'', kHeaders = [],
       kOffset = off, kTime = 0 \<rparr>"

definition flaky :: "nat Handler" where
  "flaky ctx m calls =
     (if calls = 0 then Returns (Some (ErrorString ''boom'')) else Returns None, Suc calls)"

definition always_ok :: "unit Handler" where
  "always_ok ctx m u = (Returns None, u)"

definition example_cfg :: "int \<Rightarrow> Config" where
  "example_cfg n = \<lparr> Messaging_Enabled = True, Workers_Enabled = True, Workers_Concurrency = n \<rparr>"

definition orders_registration :: "unit HandlerRegistration" where
  "orders_registration = \<lparr> regTopic = ''orders.events'', regHandler = Some always_ok \<rparr>"

definition example_engine :: "int \<Rightarrow> (nat, unit) Engine" where
  "example_engine n =
     NewEngine \<lparr> pClient = noopClient ''orders.events'', pConfig = example_cfg n,
                 pRegistrations = [orders_registration] \<rparr>"


definition degenerate_engine :: "(nat, unit) Engine" where
  "degenerate_engine =
     NewEngine \<lparr> pClient = noopClient ''orders.events'', pConfig = example_cfg 4,
                 pRegistrations = [\<lparr> regTopic = [], regHandler = Some always_ok \<rparr>,
                                   \<lparr> regTopic = ''orders.events'', regHandler = None \<rparr>] \<rparr>"

definition broken_client :: "(unit, 'w) Client" where
  "broken_client =
     \<lparr> Publish = (\<lambda>ctx key val c. (Returns (Some (ErrorString ''connection refused'')), c)),
       Consume_of = (\<lambda>ctx handler c w. (Returns (Some (ErrorString ''connection refused'')), c, w)),
       Topic_of = ''orders.events'' \<rparr>"

definition broken_engine :: "(unit, unit) Engine" where
  "broken_engine =
     NewEngine \<lparr> pClient = broken_client, pConfig = example_cfg 1,
                 pRegistrations = [orders_registration] \<rparr>"

definition always_fails :: "unit Handler" where
  "always_fails ctx m u = (Returns (Some (ErrorString ''boom'')), u)"

definition world0 :: "unit world" where
  "world0 = \<lparr> elog = [], invoked = [], ustate = () \<rparr>"

definition timer_fires :: probe where
  "timer_fires = \<lparr> ctx_err = None, fired = OtherCase \<rparr>"

definition unknown_msg :: kafka_Message where
  "unknown_msg =
     \<lparr> kTopic = ''unknown.topic'', kKey = ''id'', kValue = ''{}'', kHeaders = [],
       kOffset = 7, kTime = 0 \<rparr>"

section \<open>Runs of the live log client\<close>

lemma takeWhile_starts_with_fetch:
  "starts_with_fetch tr \<Longrightarrow> takeWhile (\<lambda>x. \<not> is_fetch x) tr = []"
  by (cases tr) (auto simp: starts_with_fetch_def)

lemma dropWhile_starts_with_fetch:
  "starts_with_fetch tr \<Longrightarrow> dropWhile (\<lambda>x. \<not> is_fetch x) tr = tr"
  by (cases tr) (auto simp: starts_with_fetch_def)

lemma Consume_starts_with_fetch:
  "Consume ctx handler script hs = (r, tr, hs') \<Longrightarrow> starts_with_fetch tr"
  by (induction ctx handler script hs arbitrary: r tr hs' rule: Consume.induct)
     (auto simp: starts_with_fetch_def split: if_splits prod.splits outcome.splits option.splits)

lemma rounds_round_append:
  assumes "is_fetch ev" and "\<forall>e \<in> set evs. \<not> is_fetch e" and "starts_with_fetch tr"
  shows "rounds ((ev # evs) @ tr) = (ev # evs) # rounds tr"
  using assms
  by (simp add: takeWhile_starts_with_fetch dropWhile_starts_with_fetch)

lemma Consume_Cons:
  assumes "Consume ctx handler (item # rest) hs = (r, tr, hs')"
  shows
    "(\<exists>err. is_cancellation err \<and> item = FetchErr err \<and> r = Returns err
         \<and> tr = [KFetchFailed err] \<and> hs' = hs) \<or>
     (\<exists>km ce. item = FetchMsg km ce \<and> handler ctx (wrapped km) hs = (Panics, hs') \<and> r = Panics
         \<and> tr = [KFetched km, KHandled (wrapped km) Panics]) \<or>
     (\<exists>km ce. item = FetchMsg km ce \<and> handler ctx (wrapped km) hs = (Blocks, hs') \<and> r = Blocks
         \<and> tr = [KFetched km, KHandled (wrapped km) Blocks]) \<or>
     (\<exists>R hs1 tr0. Consume ctx handler rest hs1 = (r, tr0, hs') \<and> tr = R @ tr0
         \<and> rounds tr = R # rounds tr0 \<and>
         ((\<exists>err. \<not> is_cancellation err \<and> item = FetchErr err \<and> hs1 = hs \<and> R = retry_round err) \<or>
          (\<exists>km ce e. item = FetchMsg km ce
              \<and> handler ctx (wrapped km) hs = (Returns (Some e), hs1) \<and> R = failed_round km e) \<or>
          (\<exists>km ce. item = FetchMsg km ce
              \<and> handler ctx (wrapped km) hs = (Returns None, hs1) \<and> R = commit_round km ce)))"
proof (cases item)
  case (FetchErr err)
  show ?thesis
  proof (cases "is_cancellation err")
    case True
    with assms FetchErr show ?thesis by (simp add: is_cancellation_def)
  next
    case False
    obtain r0 tr0 hs0 where c: "Consume ctx handler rest hs = (r0, tr0, hs0)"
      by (cases "Consume ctx handler rest hs") auto
    have s: "starts_with_fetch tr0" using c by (rule Consume_starts_with_fetch)
    from False assms FetchErr c have tr: "tr = retry_round err @ tr0" and r: "r = r0" "hs' = hs0"
      by (simp_all add: is_cancellation_def retry_round_def)
    have "rounds tr = retry_round err # rounds tr0"
      unfolding tr retry_round_def using s by (intro rounds_round_append) simp_all
    with False FetchErr c tr r show ?thesis by simp
  qed
next
  case (FetchMsg km ce)
  obtain res hs1 where h: "handler ctx (wrapped km) hs = (res, hs1)"
    by (cases "handler ctx (wrapped km) hs") auto
  show ?thesis
  proof (cases res)
    case Panics
    with assms FetchMsg h show ?thesis by simp
  next
    case Blocks
    with assms FetchMsg h show ?thesis by simp
  next
    case (Returns eo)
    obtain r0 tr0 hs0 where c: "Consume ctx handler rest hs1 = (r0, tr0, hs0)"
      by (cases "Consume ctx handler rest hs1") auto
    have s: "starts_with_fetch tr0" using c by (rule Consume_starts_with_fetch)
    show ?thesis
    proof (cases eo)
      case None
      from assms FetchMsg h Returns None c
      have tr: "tr = commit_round km ce @ tr0" and r: "r = r0" "hs' = hs0"
        by (simp_all add: commit_round_def)
      have "rounds tr = commit_round km ce # rounds tr0"
        unfolding tr commit_round_def using s
        by (cases ce) (simp_all add: takeWhile_starts_with_fetch dropWhile_starts_with_fetch)
      with FetchMsg h Returns None c tr r show ?thesis by simp
    next
      case (Some e)
      from assms FetchMsg h Returns Some c
      have tr: "tr = failed_round km e @ tr0" and r: "r = r0" "hs' = hs0"
        by (simp_all add: failed_round_def)
      have "rounds tr = failed_round km e # rounds tr0"
        unfolding tr failed_round_def using s by (intro rounds_round_append) simp_all
      with FetchMsg h Returns Some c tr r show ?thesis by simp
    qed
  qed
qed

lemma Consume_round_shape:
  "Consume ctx handler script hs = (r, tr, hs') \<Longrightarrow> rnd \<in> set (rounds tr) \<Longrightarrow> round_shape rnd"
proof (induction script arbitrary: hs tr)
  case Nil
  then show ?case by simp
next
  case (Cons item rest)
  from Consume_Cons [OF Cons.prems(1)] show ?case
  proof (elim disjE exE conjE)
    fix err
    assume "is_cancellation err" "tr = [KFetchFailed err]"
    with Cons.prems(2) show ?thesis by (auto simp: round_shape_def)
  next
    fix km
    assume "tr = [KFetched km, KHandled (wrapped km) Panics]"
    with Cons.prems(2) show ?thesis by (auto simp: round_shape_def)
  next
    fix km
    assume "tr = [KFetched km, KHandled (wrapped km) Blocks]"
    with Cons.prems(2) show ?thesis by (auto simp: round_shape_def)
  next
    fix R hs1 tr0 err
    assume c: "Consume ctx handler rest hs1 = (r, tr0, hs')" and rs: "rounds tr = R # rounds tr0"
      and R: "R = retry_round err" "\<not> is_cancellation err"
    from Cons.prems(2) rs consider "rnd = R" | "rnd \<in> set (rounds tr0)" by auto
    then show ?thesis
    proof cases
      case 1
      with R show ?thesis by (auto simp: round_shape_def)
    next
      case 2
      with c show ?thesis by (rule Cons.IH)
    qed
  next
    fix R hs1 tr0 km e
    assume c: "Consume ctx handler rest hs1 = (r, tr0, hs')" and rs: "rounds tr = R # rounds tr0"
      and R: "R = failed_round km e"
    from Cons.prems(2) rs consider "rnd = R" | "rnd \<in> set (rounds tr0)" by auto
    then show ?thesis
    proof cases
      case 1
      with R show ?thesis by (auto simp: round_shape_def)
    next
      case 2
      with c show ?thesis by (rule Cons.IH)
    qed
  next
    fix R hs1 tr0 km ce
    assume c: "Consume ctx handler rest hs1 = (r, tr0, hs')" and rs: "rounds tr = R # rounds tr0"
      and R: "R = commit_round km ce"
    from Cons.prems(2) rs consider "rnd = R" | "rnd \<in> set (rounds tr0)" by auto
    then show ?thesis
    proof cases
      case 1
      with R show ?thesis by (auto simp: round_shape_def)
    next
      case 2
      with c show ?thesis by (rule Cons.IH)
    qed
  qed
qed

lemma concat_rounds: "concat (rounds tr) = tr"
  by (induction tr rule: rounds.induct) simp_all

text \<open>Every recorded call of the handler is a call of the handler, with its result.\<close>

lemma Consume_handled_by_handler:
  "Consume ctx handler script hs = (r, tr, hs') \<Longrightarrow> KHandled m res \<in> set tr \<Longrightarrow>
     \<exists>hs0 hs1. handler ctx m hs0 = (res, hs1)"
proof (induction script arbitrary: hs tr)
  case Nil
  then show ?case by simp
next
  case (Cons item rest)
  from Consume_Cons [OF Cons.prems(1)] show ?case
  proof (elim disjE exE conjE)
    fix err
    assume "tr = [KFetchFailed err]"
    with Cons.prems(2) show ?thesis by simp
  next
    fix km ce
    assume "handler ctx (wrapped km) hs = (Panics, hs')" "tr = [KFetched km, KHandled (wrapped km) Panics]"
    with Cons.prems(2) show ?thesis by auto
  next
    fix km ce
    assume "handler ctx (wrapped km) hs = (Blocks, hs')" "tr = [KFetched km, KHandled (wrapped km) Blocks]"
    with Cons.prems(2) show ?thesis by auto
  next
    fix R hs1 tr0 err
    assume c: "Consume ctx handler rest hs1 = (r, tr0, hs')" and tr: "tr = R @ tr0"
      and R: "R = retry_round err"
    from Cons.prems(2) tr R have "KHandled m res \<in> set tr0"
      by (simp add: retry_round_def)
    with c show ?thesis by (rule Cons.IH)
  next
    fix R hs1 tr0 km ce e
    assume c: "Consume ctx handler rest hs1 = (r, tr0, hs')" and tr: "tr = R @ tr0"
      and R: "R = failed_round km e" and h: "handler ctx (wrapped km) hs = (Returns (Some e), hs1)"
    from Cons.prems(2) tr R consider "m = wrapped km" "res = Returns (Some e)" | "KHandled m res \<in> set tr0"
      by (auto simp: failed_round_def)
    then show ?thesis
    proof cases
      case 1
      with h show ?thesis by blast
    next
      case 2
      with c show ?thesis by (rule Cons.IH)
    qed
  next
    fix R hs1 tr0 km ce
    assume c: "Consume ctx handler rest hs1 = (r, tr0, hs')" and tr: "tr = R @ tr0"
      and R: "R = commit_round km ce" and h: "handler ctx (wrapped km) hs = (Returns None, hs1)"
    from Cons.prems(2) tr R consider "m = wrapped km" "res = Returns None" | "KHandled m res \<in> set tr0"
      by (cases ce) (auto simp: commit_round_def)
    then show ?thesis
    proof cases
      case 1
      with h show ?thesis by blast
    next
      case 2
      with c show ?thesis by (rule Cons.IH)
    qed
  qed
qed

lemma in_concat_rounds: "rnd \<in> set (rounds tr) \<Longrightarrow> ev \<in> set rnd \<Longrightarrow> ev \<in> set tr"
  using concat_rounds [of tr] by (metis UN_I set_concat)

text \<open>
  Claim C1. In a run of \<^verbatim>\<open>Consume\<close>, take any delivery attempt (a round of the run). If
  the run records a call of the handler in it with result \<open>res\<close>, the handler was called
  on that message and ended so, and a commit is attempted in that round exactly when \<open>res\<close>
  is a return of nil. A commit in a round stands right after the
  handler's successful return on the message fetched in that round, hence before the next
  fetch, and no second commit follows in the round. A round calls the handler at most once.
\<close>

theorem commit_iff_handler_success:
  assumes "Consume ctx handler script hs = (r, tr, hs')" and "rnd \<in> set (rounds tr)"
  shows "(\<forall>m res. KHandled m res \<in> set rnd \<longrightarrow>
            (\<exists>hs0 hs1. handler ctx m hs0 = (res, hs1)) \<and>
            ((\<exists>km ce. KCommit km ce \<in> set rnd) \<longleftrightarrow> res = Returns None)) \<and>
         (\<forall>km ce. KCommit km ce \<in> set rnd \<longrightarrow>
            (\<exists>logs. rnd = KFetched km # KHandled (wrapped km) (Returns None) # KCommit km ce # logs
               \<and> committed_msgs logs = [])) \<and>
         length (filter is_handled rnd) \<le> 1"
proof -
  have sh: "round_shape rnd" using assms by (rule Consume_round_shape)
  have called: "\<exists>hs0 hs1. handler ctx m hs0 = (res, hs1)" if "KHandled m res \<in> set rnd" for m res
    using assms(1) in_concat_rounds [OF assms(2) that] by (rule Consume_handled_by_handler)
  from sh have
    "(\<forall>m res. KHandled m res \<in> set rnd \<longrightarrow>
        ((\<exists>km ce. KCommit km ce \<in> set rnd) \<longleftrightarrow> res = Returns None)) \<and>
     (\<forall>km ce. KCommit km ce \<in> set rnd \<longrightarrow>
        (\<exists>logs. rnd = KFetched km # KHandled (wrapped km) (Returns None) # KCommit km ce # logs
           \<and> committed_msgs logs = [])) \<and>
     length (filter is_handled rnd) \<le> 1"
    unfolding round_shape_def retry_round_def failed_round_def commit_round_def
    by (elim disjE exE conjE) (simp_all split: option.splits)
  with called show ?thesis by blast
qed

theorem commit_iff_handler_success_witness:
  "Consume background flaky [FetchMsg (order_msg 5) None, FetchMsg (order_msg 5) None] 0 =
     (Blocks,
      [KFetched (order_msg 5),
       KHandled (wrapped (order_msg 5)) (Returns (Some (ErrorString ''boom''))),
       KLog ErrorLevel ''message handler failed''
         [zap_Error (ErrorString ''boom''), zap_Int64 ''offset'' 5],
       KFetched (order_msg 5),
       KHandled (wrapped (order_msg 5)) (Returns None),
       KCommit (order_msg 5) None], 2) \<and>
   \<not> (\<exists>km ce. KCommit km ce \<in> set
       [KFetched (order_msg 5),
        KHandled (wrapped (order_msg 5)) (Returns (Some (ErrorString ''boom''))),
        KLog ErrorLevel ''message handler failed''
          [zap_Error (ErrorString ''boom''), zap_Int64 ''offset'' 5]]) \<and>
   (\<exists>km ce. KCommit km ce \<in> set
       [KFetched (order_msg 5), KHandled (wrapped (order_msg 5)) (Returns None),
        KCommit (order_msg 5) None])"
proof -
  let ?r1 = "[KFetched (order_msg 5),
       KHandled (wrapped (order_msg 5)) (Returns (Some (ErrorString ''boom''))),
       KLog ErrorLevel ''message handler failed''
         [zap_Error (ErrorString ''boom''), zap_Int64 ''offset'' 5]]"
  let ?r2 = "[KFetched (order_msg 5),
       KHandled (wrapped (order_msg 5)) (Returns None), KCommit (order_msg 5) None]"
  have run: "Consume background flaky [FetchMsg (order_msg 5) None, FetchMsg (order_msg 5) None] 0 =
     (Blocks, ?r1 @ ?r2, 2)"
    by (simp add: flaky_def order_msg_def)
  have rs: "rounds (?r1 @ ?r2) = [?r1, ?r2]"
    by simp
  have m1: "?r1 \<in> set (rounds (?r1 @ ?r2))" and m2: "?r2 \<in> set (rounds (?r1 @ ?r2))"
    unfolding rs by simp_all
  from commit_iff_handler_success [OF run m1] commit_iff_handler_success [OF run m2] run
  show ?thesis by simp
qed

lemma rounds_nonempty: "rnd \<in> set (rounds tr) \<Longrightarrow> rnd \<noteq> []"
  by (induction tr rule: rounds.induct) auto

lemma Consume_returns_cancellation:
  "Consume ctx handler script hs = (Returns e, tr, hs') \<Longrightarrow>
     is_cancellation e \<and> tr \<noteq> [] \<and> last tr = KFetchFailed e"
proof (induction script arbitrary: hs tr)
  case Nil
  then show ?case by simp
next
  case (Cons item rest)
  from Consume_Cons [OF Cons.prems] show ?case
  proof (elim disjE exE conjE)
    fix R hs1 tr0 err
    assume "Consume ctx handler rest hs1 = (Returns e, tr0, hs')" "tr = R @ tr0"
    with Cons.IH show ?thesis by simp
  next
    fix R hs1 tr0 km ce e'
    assume "Consume ctx handler rest hs1 = (Returns e, tr0, hs')" "tr = R @ tr0"
    with Cons.IH show ?thesis by simp
  next
    fix R hs1 tr0 km ce
    assume "Consume ctx handler rest hs1 = (Returns e, tr0, hs')" "tr = R @ tr0"
    with Cons.IH show ?thesis by simp
  qed simp_all
qed

lemma Consume_cancellation_round:
  "Consume ctx handler script hs = (r, tr, hs') \<Longrightarrow> rnd \<in> set (rounds tr) \<Longrightarrow>
   hd rnd = KFetchFailed err \<Longrightarrow> is_cancellation err \<Longrightarrow>
     r = Returns err \<and> rnd = last (rounds tr)"
proof (induction script arbitrary: hs tr)
  case Nil
  then show ?case by simp
next
  case (Cons item rest)
  from Consume_Cons [OF Cons.prems(1)] show ?case
  proof (elim disjE exE conjE)
    fix err'
    assume "is_cancellation err'" "item = FetchErr err'" "r = Returns err'" "tr = [KFetchFailed err']"
    with Cons.prems(2,3) show ?thesis by simp
  next
    fix km ce
    assume "tr = [KFetched km, KHandled (wrapped km) Panics]"
    with Cons.prems(2,3) show ?thesis by simp
  next
    fix km ce
    assume "tr = [KFetched km, KHandled (wrapped km) Blocks]"
    with Cons.prems(2,3) show ?thesis by simp
  next
    fix R hs1 tr0 err'
    assume c: "Consume ctx handler rest hs1 = (r, tr0, hs')" and rs: "rounds tr = R # rounds tr0"
      and R: "R = retry_round err'" and nc: "\<not> is_cancellation err'"
    from Cons.prems(2,3,4) rs R nc have m: "rnd \<in> set (rounds tr0)"
      by (auto simp: retry_round_def)
    from Cons.IH [OF c m Cons.prems(3,4)] m show ?thesis
      by (auto simp: rs)
  next
    fix R hs1 tr0 km ce e
    assume c: "Consume ctx handler rest hs1 = (r, tr0, hs')" and rs: "rounds tr = R # rounds tr0"
      and R: "R = failed_round km e"
    from Cons.prems(2,3,4) rs R have m: "rnd \<in> set (rounds tr0)"
      by (auto simp: failed_round_def)
    from Cons.IH [OF c m Cons.prems(3,4)] m show ?thesis
      by (auto simp: rs)
  next
    fix R hs1 tr0 km ce
    assume c: "Consume ctx handler rest hs1 = (r, tr0, hs')" and rs: "rounds tr = R # rounds tr0"
      and R: "R = commit_round km ce"
    from Cons.prems(2,3,4) rs R have m: "rnd \<in> set (rounds tr0)"
      by (auto simp: commit_round_def)
    from Cons.IH [OF c m Cons.prems(3,4)] m show ?thesis
      by (auto simp: rs)
  qed
qed

lemma round_shape_fetch_failed:
  "round_shape rnd \<Longrightarrow> hd rnd = KFetchFailed err \<Longrightarrow>
     (if is_cancellation err then rnd = [KFetchFailed err]
      else rnd = [KFetchFailed err, KLog ErrorLevel ''kafka fetch failed'' [zap_Error err],
                  KSleep Second])"
  unfolding round_shape_def retry_round_def failed_round_def commit_round_def
  by (elim disjE exE conjE) (simp_all split: option.splits)

text \<open>Where the run stands in the script, and how it goes on after a failed fetch.\<close>

lemma Consume_nonempty:
  "Consume ctx handler (item # rest) hs = (r, tr, hs') \<Longrightarrow> tr \<noteq> []"
  using Consume_Cons [of ctx handler item rest hs r tr hs']
  by (auto simp: retry_round_def failed_round_def commit_round_def)

lemma rounds_eq_Nil: "rounds tr = [] \<longleftrightarrow> tr = []"
  by (cases tr) simp_all

lemma Consume_rounds_script:
  "Consume ctx handler script hs = (r, tr, hs') \<Longrightarrow>
     length (rounds tr) \<le> length script \<and>
     (\<forall>i < length (rounds tr). hd (rounds tr ! i) = fetch_event (script ! i))"
proof (induction script arbitrary: hs tr)
  case Nil
  then show ?case by simp
next
  case (Cons item rest)
  from Consume_Cons [OF Cons.prems] show ?case
  proof (elim disjE exE conjE)
    fix err
    assume "item = FetchErr err" "tr = [KFetchFailed err]"
    then show ?thesis by simp
  next
    fix km ce
    assume "item = FetchMsg km ce" "tr = [KFetched km, KHandled (wrapped km) Panics]"
    then show ?thesis by simp
  next
    fix km ce
    assume "item = FetchMsg km ce" "tr = [KFetched km, KHandled (wrapped km) Blocks]"
    then show ?thesis by simp
  next
    fix R hs1 tr0 err
    assume c: "Consume ctx handler rest hs1 = (r, tr0, hs')" and rs: "rounds tr = R # rounds tr0"
      and R: "R = retry_round err" and item: "item = FetchErr err"
    from Cons.IH [OF c] show ?thesis
      by (auto simp: rs R item retry_round_def nth_Cons split: nat.splits)
  next
    fix R hs1 tr0 km ce e
    assume c: "Consume ctx handler rest hs1 = (r, tr0, hs')" and rs: "rounds tr = R # rounds tr0"
      and R: "R = failed_round km e" and item: "item = FetchMsg km ce"
    from Cons.IH [OF c] show ?thesis
      by (auto simp: rs R item failed_round_def nth_Cons split: nat.splits)
  next
    fix R hs1 tr0 km ce
    assume c: "Consume ctx handler rest hs1 = (r, tr0, hs')" and rs: "rounds tr = R # rounds tr0"
      and R: "R = commit_round km ce" and item: "item = FetchMsg km ce"
    from Cons.IH [OF c] show ?thesis
      by (auto simp: rs R item commit_round_def nth_Cons split: nat.splits)
  qed
qed

lemma after_failure_step:
  assumes rs: "rounds tr = R # rounds tr0" and tr: "tr = R @ tr0"
    and ih: "if c then length (rounds tr0) = Suc j
             else \<exists>hs1 tr1. P hs1 tr1 \<and> tr0 = concat (take (Suc j) (rounds tr0)) @ tr1 \<and>
                    rounds tr1 = drop (Suc j) (rounds tr0)"
  shows "if c then length (rounds tr) = Suc (Suc j)
         else \<exists>hs1 tr1. P hs1 tr1 \<and> tr = concat (take (Suc (Suc j)) (rounds tr)) @ tr1 \<and>
                rounds tr1 = drop (Suc (Suc j)) (rounds tr)"
proof (cases c)
  case True
  with ih show ?thesis by (simp add: rs)
next
  case False
  with ih obtain hs1 tr1 where p: "P hs1 tr1"
    and t: "tr0 = concat (take (Suc j) (rounds tr0)) @ tr1"
    and d: "rounds tr1 = drop (Suc j) (rounds tr0)"
    by auto
  have "tr = R @ concat (take (Suc j) (rounds tr0)) @ tr1"
    unfolding tr using t by (rule arg_cong)
  then have e: "tr = concat (take (Suc (Suc j)) (rounds tr)) @ tr1"
    unfolding rs by simp
  have d': "rounds tr1 = drop (Suc (Suc j)) (rounds tr)"
    unfolding rs using d by simp
  from p e d' have "\<exists>hs1 tr1. P hs1 tr1 \<and> tr = concat (take (Suc (Suc j)) (rounds tr)) @ tr1 \<and>
                rounds tr1 = drop (Suc (Suc j)) (rounds tr)"
    by blast
  with False show ?thesis by simp
qed

lemma Consume_after_failure:
  "Consume ctx handler script hs = (r, tr, hs') \<Longrightarrow> i < length (rounds tr) \<Longrightarrow>
   script ! i = FetchErr err \<Longrightarrow>
     (if is_cancellation err then length (rounds tr) = Suc i
      else \<exists>hs1 tr1. Consume ctx handler (drop (Suc i) script) hs1 = (r, tr1, hs') \<and>
             tr = concat (take (Suc i) (rounds tr)) @ tr1 \<and>
             rounds tr1 = drop (Suc i) (rounds tr))"
proof (induction script arbitrary: hs tr i)
  case Nil
  then show ?case by simp
next
  case (Cons item rest)
  from Consume_Cons [OF Cons.prems(1)] show ?case
  proof (elim disjE exE conjE)
    fix err'
    assume "is_cancellation err'" "item = FetchErr err'" "tr = [KFetchFailed err']"
    with Cons.prems(2,3) show ?thesis by simp
  next
    fix km ce
    assume "item = FetchMsg km ce" "tr = [KFetched km, KHandled (wrapped km) Panics]"
    with Cons.prems(2,3) show ?thesis by simp
  next
    fix km ce
    assume "item = FetchMsg km ce" "tr = [KFetched km, KHandled (wrapped km) Blocks]"
    with Cons.prems(2,3) show ?thesis by simp
  next
    fix R hs1 tr0 err'
    assume c: "Consume ctx handler rest hs1 = (r, tr0, hs')" and tr: "tr = R @ tr0"
      and rs: "rounds tr = R # rounds tr0"
      and nc: "\<not> is_cancellation err'" and item: "item = FetchErr err'"
    show ?thesis
    proof (cases i)
      case 0
      with Cons.prems(3) item have "err = err'" by simp
      with nc c tr rs 0 show ?thesis by auto
    next
      case (Suc j)
      with Cons.prems(2,3) rs have j: "j < length (rounds tr0)" and s: "rest ! j = FetchErr err"
        by simp_all
      from rs tr Cons.IH [OF c j s] show ?thesis
        unfolding Suc drop_Suc_Cons by (rule after_failure_step)
    qed
  next
    fix R hs1 tr0 km ce e
    assume c: "Consume ctx handler rest hs1 = (r, tr0, hs')" and tr: "tr = R @ tr0"
      and rs: "rounds tr = R # rounds tr0" and item: "item = FetchMsg km ce"
    show ?thesis
    proof (cases i)
      case 0
      with Cons.prems(3) item show ?thesis by simp
    next
      case (Suc j)
      with Cons.prems(2,3) rs have j: "j < length (rounds tr0)" and s: "rest ! j = FetchErr err"
        by simp_all
      from rs tr Cons.IH [OF c j s] show ?thesis
        unfolding Suc drop_Suc_Cons by (rule after_failure_step)
    qed
  next
    fix R hs1 tr0 km ce
    assume c: "Consume ctx handler rest hs1 = (r, tr0, hs')" and tr: "tr = R @ tr0"
      and rs: "rounds tr = R # rounds tr0" and item: "item = FetchMsg km ce"
    show ?thesis
    proof (cases i)
      case 0
      with Cons.prems(3) item show ?thesis by simp
    next
      case (Suc j)
      with Cons.prems(2,3) rs have j: "j < length (rounds tr0)" and s: "rest ! j = FetchErr err"
        by simp_all
      from rs tr Cons.IH [OF c j s] show ?thesis
        unfolding Suc drop_Suc_Cons by (rule after_failure_step)
    qed
  qed
qed

lemma Consume_retries:
  assumes run: "Consume ctx handler script hs = (r, tr, hs')" and i: "i < length (rounds tr)"
    and s: "script ! i = FetchErr err" and nc: "\<not> is_cancellation err"
  shows "(Suc i < length script \<longrightarrow> Suc i < length (rounds tr)) \<and>
         (Suc i = length script \<longrightarrow> r = Blocks)"
proof -
  from Consume_after_failure [OF run i s] nc obtain hs1 tr1 where
    c: "Consume ctx handler (drop (Suc i) script) hs1 = (r, tr1, hs')"
    and d: "rounds tr1 = drop (Suc i) (rounds tr)"
    by auto
  show ?thesis
  proof (intro conjI impI)
    assume "Suc i < length script"
    then obtain item rest where "drop (Suc i) script = item # rest"
      by (cases "drop (Suc i) script") auto
    with c have "tr1 \<noteq> []" by (auto dest: Consume_nonempty)
    then have "rounds tr1 \<noteq> []" by (simp add: rounds_eq_Nil)
    with d show "Suc i < length (rounds tr)" by simp
  next
    assume "Suc i = length script"
    then have "drop (Suc i) script = []" by simp
    with c show "r = Blocks" by simp
  qed
qed

text \<open>
  Claim C3. In a run of \<^verbatim>\<open>Consume\<close> on what the reader returns (the script), round \<open>i\<close> of
  the run starts with the outcome of fetch \<open>i\<close>. A failed fetch whose error is not a
  cancellation is followed by one error log and a sleep of exactly one second, and by
  nothing else before the next fetch; then the fetch is retried: the rest of the run is a
  run of \<^verbatim>\<open>Consume\<close> on the rest of the script, so the next item of the reader is fetched if
  there is one, and the run blocks in the fetch if there is none. A failed fetch whose error
  matches \<^verbatim>\<open>context.Canceled\<close> or \<^verbatim>\<open>context.DeadlineExceeded\<close> ends the run at once, no
  further fetch is made, and \<^verbatim>\<open>Consume\<close> returns that error. \<^verbatim>\<open>Consume\<close> returns in no other
  way.
\<close>

theorem fetch_error_policy:
  assumes "Consume ctx handler script hs = (r, tr, hs')"
  shows "(\<forall>rnd \<in> set (rounds tr). \<forall>err. hd rnd = KFetchFailed err \<longrightarrow>
            (if is_cancellation err
             then rnd = [KFetchFailed err] \<and> r = Returns err \<and> rnd = last (rounds tr)
             else rnd = [KFetchFailed err,
                         KLog ErrorLevel ''kafka fetch failed'' [zap_Error err],
                         KSleep Second])) \<and>
         (\<forall>e. r = Returns e \<longrightarrow> is_cancellation e \<and> tr \<noteq> [] \<and> last tr = KFetchFailed e) \<and>
         length (rounds tr) \<le> length script \<and>
         (\<forall>i < length (rounds tr). hd (rounds tr ! i) = fetch_event (script ! i)) \<and>
         (\<forall>i < length (rounds tr). \<forall>err. script ! i = FetchErr err \<longrightarrow>
            (if is_cancellation err
             then rounds tr ! i = [KFetchFailed err] \<and> length (rounds tr) = Suc i \<and> r = Returns err
             else rounds tr ! i = [KFetchFailed err,
                                   KLog ErrorLevel ''kafka fetch failed'' [zap_Error err],
                                   KSleep Second] \<and>
                  (\<exists>hs1 tr1. Consume ctx handler (drop (Suc i) script) hs1 = (r, tr1, hs') \<and>
                      tr = concat (take (Suc i) (rounds tr)) @ tr1 \<and>
                      rounds tr1 = drop (Suc i) (rounds tr)) \<and>
                  (Suc i < length script \<longrightarrow> Suc i < length (rounds tr)) \<and>
                  (Suc i = length script \<longrightarrow> r = Blocks))) \<and>
         (\<forall>err rest hs0.
            Consume ctx handler (FetchErr err # rest) hs0 =
              (if is_cancellation err then (Returns err, [KFetchFailed err], hs0)
               else case Consume ctx handler rest hs0 of
                      (r0, tr0, hs1) \<Rightarrow>
                        (r0, KFetchFailed err
                             # KLog ErrorLevel ''kafka fetch failed'' [zap_Error err]
                             # KSleep Second # tr0, hs1)))"
proof -
  have shape: "if is_cancellation err
        then rnd = [KFetchFailed err] \<and> r = Returns err \<and> rnd = last (rounds tr)
        else rnd = [KFetchFailed err, KLog ErrorLevel ''kafka fetch failed'' [zap_Error err],
                    KSleep Second]"
    if m: "rnd \<in> set (rounds tr)" and h: "hd rnd = KFetchFailed err" for rnd err
  proof -
    have sh: "round_shape rnd" using assms m by (rule Consume_round_shape)
    show ?thesis
      using round_shape_fetch_failed [OF sh h] Consume_cancellation_round [OF assms m h]
      by (cases "is_cancellation err") simp_all
  qed
  have ret: "is_cancellation e \<and> tr \<noteq> [] \<and> last tr = KFetchFailed e" if "r = Returns e" for e
    using assms that Consume_returns_cancellation [of ctx handler script hs e tr hs'] by simp
  note pos = Consume_rounds_script [OF assms]
  have at: "if is_cancellation err
             then rounds tr ! i = [KFetchFailed err] \<and> length (rounds tr) = Suc i \<and> r = Returns err
             else rounds tr ! i = [KFetchFailed err,
                                   KLog ErrorLevel ''kafka fetch failed'' [zap_Error err],
                                   KSleep Second] \<and>
                  (\<exists>hs1 tr1. Consume ctx handler (drop (Suc i) script) hs1 = (r, tr1, hs') \<and>
                      tr = concat (take (Suc i) (rounds tr)) @ tr1 \<and>
                      rounds tr1 = drop (Suc i) (rounds tr)) \<and>
                  (Suc i < length script \<longrightarrow> Suc i < length (rounds tr)) \<and>
                  (Suc i = length script \<longrightarrow> r = Blocks)"
    if i: "i < length (rounds tr)" and s: "script ! i = FetchErr err" for i err
  proof -
    from pos i s have h: "hd (rounds tr ! i) = KFetchFailed err" by simp
    from i have m: "rounds tr ! i \<in> set (rounds tr)" by simp
    note sh = shape [OF m h]
    note af = Consume_after_failure [OF assms i s]
    show ?thesis
    proof (cases "is_cancellation err")
      case True
      with sh af show ?thesis by simp
    next
      case False
      with sh af Consume_retries [OF assms i s False] show ?thesis by simp
    qed
  qed
  have head: "Consume ctx handler (FetchErr err # rest) hs0 =
              (if is_cancellation err then (Returns err, [KFetchFailed err], hs0)
               else case Consume ctx handler rest hs0 of
                      (r0, tr0, hs1) \<Rightarrow>
                        (r0, KFetchFailed err
                             # KLog ErrorLevel ''kafka fetch failed'' [zap_Error err]
                             # KSleep Second # tr0, hs1))" for err rest hs0
    by (simp add: is_cancellation_def)
  from shape ret pos at head show ?thesis by blast
qed

theorem fetch_error_policy_witness:
  "Consume background always_ok
     [FetchErr (ErrorString ''EOF''), FetchMsg (order_msg 1) None,
      FetchErr (Wrapped ''fetching message'' Canceled), FetchMsg (order_msg 2) None] () =
     (Returns (Wrapped ''fetching message'' Canceled),
      [KFetchFailed (ErrorString ''EOF''),
       KLog ErrorLevel ''kafka fetch failed'' [zap_Error (ErrorString ''EOF'')],
       KSleep 1000000000,
       KFetched (order_msg 1), KHandled (wrapped (order_msg 1)) (Returns None),
       KCommit (order_msg 1) None,
       KFetchFailed (Wrapped ''fetching message'' Canceled)], ()) \<and>
   \<not> is_cancellation (ErrorString ''EOF'') \<and>
   is_cancellation (Wrapped ''fetching message'' Canceled) \<and>
   Suc 0 < length (rounds
      [KFetchFailed (ErrorString ''EOF''),
       KLog ErrorLevel ''kafka fetch failed'' [zap_Error (ErrorString ''EOF'')],
       KSleep 1000000000,
       KFetched (order_msg 1), KHandled (wrapped (order_msg 1)) (Returns None),
       KCommit (order_msg 1) None,
       KFetchFailed (Wrapped ''fetching message'' Canceled)]) \<and>
   length (rounds
      [KFetchFailed (ErrorString ''EOF''),
       KLog ErrorLevel ''kafka fetch failed'' [zap_Error (ErrorString ''EOF'')],
       KSleep 1000000000,
       KFetched (order_msg 1), KHandled (wrapped (order_msg 1)) (Returns None),
       KCommit (order_msg 1) None,
       KFetchFailed (Wrapped ''fetching message'' Canceled)]) = 3"
proof -
  let ?script = "[FetchErr (ErrorString ''EOF''), FetchMsg (order_msg 1) None,
      FetchErr (Wrapped ''fetching message'' Canceled), FetchMsg (order_msg 2) None]"
  let ?tr = "[KFetchFailed (ErrorString ''EOF''),
       KLog ErrorLevel ''kafka fetch failed'' [zap_Error (ErrorString ''EOF'')],
       KSleep 1000000000,
       KFetched (order_msg 1), KHandled (wrapped (order_msg 1)) (Returns None),
       KCommit (order_msg 1) None,
       KFetchFailed (Wrapped ''fetching message'' Canceled)]"
  have run: "Consume background always_ok ?script () =
      (Returns (Wrapped ''fetching message'' Canceled), ?tr, ())"
    by (simp add: always_ok_def Second_def)
  have n: "\<not> is_cancellation (ErrorString ''EOF'')"
    and c: "is_cancellation (Wrapped ''fetching message'' Canceled)"
    by (simp_all add: is_cancellation_def)
  have l: "length (rounds ?tr) = 3"
    by simp
  from fetch_error_policy [OF run]
  have at: "\<forall>i < length (rounds ?tr). \<forall>err. ?script ! i = FetchErr err \<longrightarrow>
            (if is_cancellation err
             then rounds ?tr ! i = [KFetchFailed err] \<and> length (rounds ?tr) = Suc i \<and>
                  Returns (Wrapped ''fetching message'' Canceled) = Returns err
             else rounds ?tr ! i = [KFetchFailed err,
                                   KLog ErrorLevel ''kafka fetch failed'' [zap_Error err],
                                   KSleep Second] \<and>
                  (\<exists>hs1 tr1. Consume background always_ok (drop (Suc i) ?script) hs1 =
                        (Returns (Wrapped ''fetching message'' Canceled), tr1, ()) \<and>
                      ?tr = concat (take (Suc i) (rounds ?tr)) @ tr1 \<and>
                      rounds tr1 = drop (Suc i) (rounds ?tr)) \<and>
                  (Suc i < length ?script \<longrightarrow> Suc i < length (rounds ?tr)) \<and>
                  (Suc i = length ?script \<longrightarrow> Returns (Wrapped ''fetching message'' Canceled) = Blocks))"
    by (elim conjE)
  have p0: "0 < length (rounds ?tr)" unfolding l by simp
  have s0: "?script ! 0 = FetchErr (ErrorString ''EOF'')" by simp
  from at [rule_format, OF p0 s0] n
  have "Suc 0 < length ?script \<longrightarrow> Suc 0 < length (rounds ?tr)"
    by (simp only: if_False) (elim conjE)
  then have "Suc 0 < length (rounds ?tr)" by simp
  with run n c l show ?thesis by (simp only: simp_thms)
qed

lemma fetched_msgs_append: "fetched_msgs (xs @ ys) = fetched_msgs xs @ fetched_msgs ys"
  by (induction xs rule: fetched_msgs.induct) simp_all

lemma handled_msgs_append: "handled_msgs (xs @ ys) = handled_msgs xs @ handled_msgs ys"
  by (induction xs rule: handled_msgs.induct) simp_all

lemma committed_msgs_append: "committed_msgs (xs @ ys) = committed_msgs xs @ committed_msgs ys"
  by (induction xs rule: committed_msgs.induct) simp_all


lemma round_shape_fetched:
  "round_shape rnd \<Longrightarrow> hd rnd = KFetched km \<Longrightarrow>
     \<exists>res post. rnd = KFetched km # KHandled (wrapped km) res # post \<and>
        (\<forall>e \<in> set post. \<not> is_fetch e \<and> \<not> is_handled e) \<and>
        (if res = Returns None then \<exists>ce logs. post = KCommit km ce # logs
         else committed_msgs post = [])"
  unfolding round_shape_def retry_round_def failed_round_def commit_round_def
  by (elim disjE exE conjE) (simp_all split: option.splits)



section \<open>The noop client\<close>

text \<open>
  Claim C8. For the noop client, \<^verbatim>\<open>Publish\<close> returns nil on every input and \<^verbatim>\<open>Topic\<close>
  returns the configured topic. \<^verbatim>\<open>Consume\<close> never returns when the context is never done.
  When the context is done at \<open>d\<close>, \<^verbatim>\<open>Consume\<close> called at \<open>now\<close> returns at \<open>max now d\<close>, no
  earlier than \<open>d\<close> (before \<open>d\<close> the context has no error), and returns the context's error;
  the handler is not run.
\<close>

theorem noop_client:
  "Publish (noopClient topic :: (nat, 'w) Client) ctx key val now = (Returns None, now) \<and>
   Topic_of (noopClient topic :: (nat, 'w) Client) = topic \<and>
   (done_at ctx = None \<longrightarrow>
      Consume_of (noopClient topic) ctx handler now (w :: 'w) = (Blocks, now, w)) \<and>
   (\<forall>d. done_at ctx = Some d \<longrightarrow>
      Consume_of (noopClient topic) ctx handler now w = (Returns (Some (cause ctx)), max now d, w) \<and>
      ctx_Err ctx (max now d) = Some (cause ctx) \<and>
      (\<forall>s. s < d \<longrightarrow> ctx_Err ctx s = None))"
proof (intro conjI allI impI)
  show "Publish (noopClient topic :: (nat, 'w) Client) ctx key val now = (Returns None, now)"
    by (simp add: noopClient_def)
  show "Topic_of (noopClient topic :: (nat, 'w) Client) = topic"
    by (simp add: noopClient_def)
next
  assume "done_at ctx = None"
  then show "Consume_of (noopClient topic) ctx handler now w = (Blocks, now, w)"
    by (simp add: noopClient_def await_Done_def)
next
  fix d
  assume d: "done_at ctx = Some d"
  then have a: "await_Done ctx now = Some (max now d)"
    by (simp add: await_Done_def)
  from d show e: "ctx_Err ctx (max now d) = Some (cause ctx)"
    by (simp add: ctx_Err_def)
  from a e show "Consume_of (noopClient topic) ctx handler now w =
      (Returns (Some (cause ctx)), max now d, w)"
    by (simp add: noopClient_def)
next
  fix d s :: nat
  assume "done_at ctx = Some d" and "s < d"
  then show "ctx_Err ctx s = None"
    by (simp add: ctx_Err_def)
qed

theorem noop_client_witness:
  "Consume_of (noopClient ''orders.events'') \<lparr>done_at = Some 10, cause = Canceled\<rparr> always_ok 4 () =
     (Returns (Some Canceled), 10, ()) \<and>
   ctx_Err \<lparr>done_at = Some 10, cause = Canceled\<rparr> 9 = None \<and>
   Consume_of (noopClient ''orders.events'') background always_ok 4 () = (Blocks, 4, ())"
  using noop_client [of "''orders.events''" "\<lparr>done_at = Some 10, cause = Canceled\<rparr>" "''id''" "''{}''" 4 always_ok "()"]
    noop_client [of "''orders.events''" background "''id''" "''{}''" 4 always_ok "()"]
  by (simp add: background_def ctx_Err_def)

section \<open>The registry\<close>

lemma map_of_fold_registrations:
  "map_of (fold (\<lambda>r reg. if regTopic r = [] \<or> regHandler r = None then reg
                         else AList.update (regTopic r) (regHandler r) reg) regs acc) t =
     (case filter (\<lambda>r. regTopic r = t \<and> regTopic r \<noteq> [] \<and> regHandler r \<noteq> None) regs of
        [] \<Rightarrow> map_of acc t
      | r # rs \<Rightarrow> Some (regHandler (last (r # rs))))"
proof (induction regs arbitrary: acc)
  case Nil
  then show ?case by simp
next
  case (Cons a regs)
  show ?case
    by (auto simp: Cons.IH update_conv' split: list.split)
qed

lemma map_of_registrations:
  "map_of (registrations (NewEngine p)) t =
     (case filter (\<lambda>r. regTopic r = t \<and> regTopic r \<noteq> [] \<and> regHandler r \<noteq> None)
             (pRegistrations p) of
        [] \<Rightarrow> None
      | r # rs \<Rightarrow> Some (regHandler (last (r # rs))))"
  by (simp add: NewEngine_def map_of_fold_registrations split: list.split)

text \<open>
  Claim C9, as amended. The registry built by \<^verbatim>\<open>NewEngine\<close> maps a topic to the handler of
  the last registration of the input list that carries this topic, a non-empty topic and a
  non-nil handler; a topic no such registration carries is absent. \<^verbatim>\<open>NewEngine\<close> has no
  error result.
\<close>

theorem last_registration_wins:
  "map_of (registrations (NewEngine p)) t =
     (case filter (\<lambda>r. regTopic r = t \<and> regTopic r \<noteq> [] \<and> regHandler r \<noteq> None)
             (pRegistrations p) of
        [] \<Rightarrow> None
      | r # rs \<Rightarrow> Some (regHandler (last (r # rs))))"
proof -
  have "registrations (NewEngine p) =
      fold (\<lambda>r reg. if regTopic r = [] \<or> regHandler r = None then reg
                     else AList.update (regTopic r) (regHandler r) reg) (pRegistrations p) []"
    by (simp add: NewEngine_def)
  then show ?thesis
    by (simp add: map_of_fold_registrations split: list.split)
qed

theorem last_registration_wins_witness:
  "map_of (registrations (NewEngine
          \<lparr> pClient = noopClient ''orders.events'', pConfig = example_cfg 1,
            pRegistrations = [orders_registration,
                              \<lparr> regTopic = ''orders.events'', regHandler = Some always_fails \<rparr>,
                              \<lparr> regTopic = ''orders.events'', regHandler = None \<rparr>] \<rparr>))
        ''orders.events'' = Some (Some always_fails)"
  using last_registration_wins [of "\<lparr> pClient = noopClient ''orders.events'', pConfig = example_cfg 1,
            pRegistrations = [orders_registration,
                              \<lparr> regTopic = ''orders.events'', regHandler = Some always_fails \<rparr>,
                              \<lparr> regTopic = ''orders.events'', regHandler = None \<rparr>] \<rparr>" "''orders.events''"]
  by (simp add: orders_registration_def)

text \<open>
  Claim C9 as stated fails: when the last registration of a topic has a nil handler, the
  registry keeps the handler of an earlier one.
\<close>

theorem last_registration_counterexample:
  "\<not> (map_of (registrations (NewEngine
          \<lparr> pClient = noopClient ''orders.events'', pConfig = example_cfg 1,
            pRegistrations = [orders_registration,
                              \<lparr> regTopic = ''orders.events'', regHandler = None \<rparr>] \<rparr>))
        ''orders.events'' =
      Some (regHandler (last (filter (\<lambda>r. regTopic r = ''orders.events'')
              [orders_registration, \<lparr> regTopic = ''orders.events'', regHandler = None \<rparr>]))))"
  by (simp add: NewEngine_def orders_registration_def)

lemma distinct_fold_registrations:
  "distinct (map fst acc) \<Longrightarrow>
   distinct (map fst (fold (\<lambda>r reg. if regTopic r = [] \<or> regHandler r = None then reg
                         else AList.update (regTopic r) (regHandler r) reg) regs acc))"
  by (induction regs arbitrary: acc) (simp_all add: distinct_update)

lemma fold_registrations_degenerate:
  "\<forall>r \<in> set regs. regTopic r = [] \<or> regHandler r = None \<Longrightarrow>
   fold (\<lambda>r reg. if regTopic r = [] \<or> regHandler r = None then reg
                  else AList.update (regTopic r) (regHandler r) reg) regs acc = acc"
  by (induction regs arbitrary: acc) auto

lemma distinct_registrations: "distinct (map fst (registrations (NewEngine p)))"
  by (simp add: NewEngine_def distinct_fold_registrations)

lemma registry_entry:
  assumes "(t, h) \<in> set (registrations (NewEngine p))"
  shows "t \<noteq> [] \<and> h \<noteq> None \<and> (\<exists>r \<in> set (pRegistrations p). regTopic r = t \<and> regHandler r = h)"
proof -
  let ?P = "\<lambda>r. regTopic r = t \<and> regTopic r \<noteq> [] \<and> regHandler r \<noteq> None"
  from assms have m: "map_of (registrations (NewEngine p)) t = Some h"
    using distinct_registrations [of p] by simp
  then obtain r rs where f: "filter ?P (pRegistrations p) = r # rs"
    and h: "h = regHandler (last (r # rs))"
    unfolding map_of_registrations by (auto split: list.splits)
  define l where "l = last (r # rs)"
  have "l \<in> set (filter ?P (pRegistrations p))"
    unfolding f l_def by (rule last_in_set) simp
  then have "l \<in> set (pRegistrations p)" and "?P l"
    by auto
  with h show ?thesis unfolding l_def [symmetric] by blast
qed

text \<open>
  Claim C10. Every entry of the registry built by \<^verbatim>\<open>NewEngine\<close> has a non-empty topic and
  a non-nil handler and comes from a registration of the input; the keys are distinct, as
  in a map. When every registration of the input has an empty topic or a nil handler, the
  registry is empty and \<^verbatim>\<open>start\<close> returns nil, leaves the engine as it is and spawns no
  loop, whatever the configuration.
\<close>

theorem degenerate_registrations_dropped:
  "(\<forall>t h. (t, h) \<in> set (registrations (NewEngine p)) \<longrightarrow>
       t \<noteq> [] \<and> h \<noteq> None \<and>
       (\<exists>r \<in> set (pRegistrations p). regTopic r = t \<and> regHandler r = h)) \<and>
   distinct (map fst (registrations (NewEngine p))) \<and>
   ((\<forall>r \<in> set (pRegistrations p). regTopic r = [] \<or> regHandler r = None) \<longrightarrow>
       registrations (NewEngine p) = [] \<and>
       (\<exists>logs. start (NewEngine p) ctx = (None, NewEngine p, logs, [])))"
proof (intro conjI allI impI)
  fix t h
  assume "(t, h) \<in> set (registrations (NewEngine p))"
  then have "t \<noteq> [] \<and> h \<noteq> None \<and>
       (\<exists>r \<in> set (pRegistrations p). regTopic r = t \<and> regHandler r = h)"
    by (rule registry_entry)
  then show "t \<noteq> []" "h \<noteq> None"
    "\<exists>r \<in> set (pRegistrations p). regTopic r = t \<and> regHandler r = h"
    by simp_all
next
  show "distinct (map fst (registrations (NewEngine p)))"
    by (rule distinct_registrations)
next
  assume d: "\<forall>r \<in> set (pRegistrations p). regTopic r = [] \<or> regHandler r = None"
  then show e: "registrations (NewEngine p) = []"
    by (simp add: NewEngine_def fold_registrations_degenerate)
  then show "\<exists>logs. start (NewEngine p) ctx = (None, NewEngine p, logs, [])"
    by (simp add: start_def)
qed

theorem degenerate_registrations_dropped_witness:
  "registrations degenerate_engine = [] \<and>
   start degenerate_engine background =
     (None, degenerate_engine, [Log InfoLevel ''worker engine has no handlers; skipping'' []], [])"
proof -
  have d: "\<forall>r \<in> set [\<lparr> regTopic = [], regHandler = Some always_ok \<rparr>,
                       \<lparr> regTopic = ''orders.events'', regHandler = None \<rparr>].
             regTopic r = [] \<or> regHandler r = None"
    by simp
  have c: "cfg degenerate_engine = example_cfg 4"
    by (simp add: degenerate_engine_def NewEngine_def)
  from degenerate_registrations_dropped
         [of "\<lparr> pClient = noopClient ''orders.events'', pConfig = example_cfg 4,
                 pRegistrations = [\<lparr> regTopic = [], regHandler = Some always_ok \<rparr>,
                                   \<lparr> regTopic = ''orders.events'', regHandler = None \<rparr>] \<rparr>"] d
  have "registrations degenerate_engine = []"
    by (simp add: degenerate_engine_def)
  then show ?thesis
    by (simp add: start_def c example_cfg_def)
qed

section \<open>Starting and stopping the engine\<close>

lemma spawn_upto: "spawn i c = [i..c - 1]"
proof (induction i c rule: spawn.induct)
  case (1 i c)
  show ?case
  proof (cases "i < c")
    case True
    with 1 have "spawn i c = i # [i + 1..c - 1]" by (simp add: spawn.simps [of i c])
    also from True have "\<dots> = [i..c - 1]" by (simp add: upto_rec1)
    finally show ?thesis .
  next
    case False
    then show ?thesis by (simp add: spawn.simps [of i c])
  qed
qed

lemma length_spawn: "length (spawn 0 c) = nat c"
  by (simp add: spawn_upto)

lemma registrations_example_engine:
  "registrations (example_engine n) = [(''orders.events'', Some always_ok)]"
  by (simp add: example_engine_def NewEngine_def orders_registration_def)

text \<open>
  Claim C4. When messaging is disabled, the worker pool is disabled or the registry is
  empty, \<^verbatim>\<open>start\<close> returns nil, leaves the engine as it is and spawns no loop. Otherwise it
  returns nil and spawns the loops with worker ids 0 to \<open>concurrency - 1\<close>, that is
  \<open>concurrency\<close> loops, where a configured concurrency of zero or below counts as 1; it
  sets the cancel function and the wait group counts the loops.
\<close>

theorem start_spawns:
  "(\<not> Messaging_Enabled (cfg e) \<or> \<not> Workers_Enabled (cfg e) \<or> length (registrations e) = 0 \<longrightarrow>
      (\<exists>logs. start e ctx = (None, e, logs, []))) \<and>
   (Messaging_Enabled (cfg e) \<and> Workers_Enabled (cfg e) \<and> length (registrations e) \<noteq> 0 \<longrightarrow>
      (\<exists>e' logs workers. start e ctx = (None, e', logs, workers) \<and>
         length workers =
           (if Workers_Concurrency (cfg e) \<le> 0 then 1 else nat (Workers_Concurrency (cfg e))) \<and>
         workers =
           [0 .. (if Workers_Concurrency (cfg e) \<le> 0 then 1 else Workers_Concurrency (cfg e)) - 1] \<and>
         cancel e' = Some CancelRun \<and> wg e' = Some (length workers)))"
proof -
  let ?c = "if Workers_Concurrency (cfg e) \<le> 0 then 1 else Workers_Concurrency (cfg e)"
  have len: "length (spawn 0 ?c) =
      (if Workers_Concurrency (cfg e) \<le> 0 then 1 else nat (Workers_Concurrency (cfg e)))"
    by (simp add: length_spawn)
  have upto: "spawn 0 ?c = [0 .. ?c - 1]"
    by (rule spawn_upto)
  show ?thesis
    unfolding start_def Let_def using len upto by auto
qed

theorem start_spawns_witness:
  "start (example_engine 4) background =
     (None, (example_engine 4)\<lparr>cancel := Some CancelRun, wg := Some 4\<rparr>,
      [Log InfoLevel ''worker engine started'' [zap_Int ''workers'' 4]], [0, 1, 2, 3]) \<and>
   start (example_engine 0) background =
     (None, (example_engine 0)\<lparr>cancel := Some CancelRun, wg := Some 1\<rparr>,
      [Log InfoLevel ''worker engine started'' [zap_Int ''workers'' 1]], [0]) \<and>
   start ((example_engine 4)\<lparr>cfg := (example_cfg 4)\<lparr>Messaging_Enabled := False\<rparr>\<rparr>) background =
     (None, (example_engine 4)\<lparr>cfg := (example_cfg 4)\<lparr>Messaging_Enabled := False\<rparr>\<rparr>,
      [Log InfoLevel ''worker engine disabled'' []], [])"
proof -
  have c: "cfg (example_engine n) = example_cfg n" for n
    by (simp add: example_engine_def NewEngine_def)
  have u4: "[0..(3::int)] = [0, 1, 2, 3]" and u1: "[0..(0::int)] = [0]"
    by (simp_all add: upto_rec1)
  from start_spawns [of "example_engine 4" background]
    start_spawns [of "example_engine 0" background]
    start_spawns [of "(example_engine 4)\<lparr>cfg := (example_cfg 4)\<lparr>Messaging_Enabled := False\<rparr>\<rparr>"
                     background]
  show ?thesis
    by (auto simp: c u4 u1 registrations_example_engine example_cfg_def start_def Let_def)
qed



section \<open>The worker loop\<close>

lemma dispatch_no_handler:
  "map_of (registrations e) (Topic msg) = None \<Longrightarrow>
   dispatch e workerID ctx msg w =
     (Returns None,
      w\<lparr>elog := elog w @ [Log WarnLevel ''no handler for topic'' [zap_String ''topic'' (Topic msg)]]\<rparr>)"
  by (simp add: dispatch_def logger_def)

lemma Topic_wrapped: "Topic (wrapped km) = kTopic km"
  by (simp add: wrapped_def)

text \<open>
  When no message the reader delivers has a registered handler, every fetched message
  is committed and the run leaves the handlers' state untouched.
\<close>

lemma Consume_no_handler:
  "\<forall>km \<in> set (script_msgs script). map_of (registrations e) (kTopic km) = None \<Longrightarrow>
   Consume ctx (dispatch e workerID) script w = (r, tr, w') \<Longrightarrow>
     committed_msgs tr = fetched_msgs tr \<and>
     (\<forall>m res. KHandled m res \<in> set tr \<longrightarrow> res = Returns None) \<and>
     invoked w' = invoked w \<and> ustate w' = ustate w \<and>
     elog w' = elog w @ map (\<lambda>km. Log WarnLevel ''no handler for topic''
                                  [zap_String ''topic'' (kTopic km)]) (fetched_msgs tr)"
proof (induction script arbitrary: w r tr w')
  case Nil
  then show ?case by simp
next
  case (Cons item rest)
  show ?case
  proof (cases item)
    case (FetchErr err)
    obtain r0 tr0 w0 where c: "Consume ctx (dispatch e workerID) rest w = (r0, tr0, w0)"
      by (cases "Consume ctx (dispatch e workerID) rest w") auto
    from Cons.prems(1) FetchErr have "\<forall>km \<in> set (script_msgs rest). map_of (registrations e) (kTopic km) = None"
      by simp
    note ih = Cons.IH [OF this c]
    from Cons.prems(2) FetchErr c ih show ?thesis
      by (auto split: if_splits)
  next
    case (FetchMsg km ce)
    let ?w1 = "w\<lparr>elog := elog w @ [Log WarnLevel ''no handler for topic'' [zap_String ''topic'' (kTopic km)]]\<rparr>"
    from Cons.prems(1) FetchMsg have un: "map_of (registrations e) (Topic (wrapped km)) = None"
      and rest: "\<forall>km \<in> set (script_msgs rest). map_of (registrations e) (kTopic km) = None"
      by (simp_all add: Topic_wrapped)
    have d: "dispatch e workerID ctx (wrapped km) w = (Returns None, ?w1)"
      using dispatch_no_handler [OF un] by (simp add: Topic_wrapped)
    obtain r0 tr0 w0 where c: "Consume ctx (dispatch e workerID) rest ?w1 = (r0, tr0, w0)"
      by (cases "Consume ctx (dispatch e workerID) rest ?w1") auto
    note ih = Cons.IH [OF rest c]
    from Cons.prems(2) FetchMsg d c have tr: "tr = KFetched km # KHandled (wrapped km) (Returns None)
        # KCommit km ce # (case ce of None \<Rightarrow> [] | Some e \<Rightarrow> [KLog WarnLevel ''commit failed'' [zap_Error e]]) @ tr0"
      and w': "w' = w0"
      by simp_all
    from ih show ?thesis
      unfolding tr w' by (cases ce) auto
  qed
qed

text \<open>
  Claim C5. Let the topic of a message have no registered handler. In whatever state the
  dispatch closure is called on the message, it returns nil and changes nothing but the
  log, to which it adds one warning: it calls no registered handler. In every run of
  \<^verbatim>\<open>Consume\<close> with the closure, the round that fetches the message records the closure's
  return of nil and then the commit of the message.
\<close>

theorem no_handler_is_success:
  assumes "map_of (registrations e) (kTopic km) = None"
  shows "(\<forall>w0. dispatch e workerID ctx (wrapped km) w0 =
            (Returns None,
             w0\<lparr>elog := elog w0 @ [Log WarnLevel ''no handler for topic''
                                       [zap_String ''topic'' (kTopic km)]]\<rparr>)) \<and>
         (\<forall>script w r tr w' rnd.
            Consume ctx (dispatch e workerID) script w = (r, tr, w') \<and>
            rnd \<in> set (rounds tr) \<and> hd rnd = KFetched km \<longrightarrow>
            (\<exists>ce logs. rnd = KFetched km # KHandled (wrapped km) (Returns None)
                                # KCommit km ce # logs))"
proof (intro conjI allI impI)
  fix w0
  from assms show d: "dispatch e workerID ctx (wrapped km) w0 =
            (Returns None,
             w0\<lparr>elog := elog w0 @ [Log WarnLevel ''no handler for topic''
                                       [zap_String ''topic'' (kTopic km)]]\<rparr>)"
    using dispatch_no_handler [of e "wrapped km" workerID ctx w0] by (simp add: Topic_wrapped)
next
  fix script w r tr w' rnd
  assume a: "Consume ctx (dispatch e workerID) script w = (r, tr, w') \<and>
            rnd \<in> set (rounds tr) \<and> hd rnd = KFetched km"
  then have run: "Consume ctx (dispatch e workerID) script w = (r, tr, w')"
    and m: "rnd \<in> set (rounds tr)" and h: "hd rnd = KFetched km"
    by simp_all
  from round_shape_fetched [OF Consume_round_shape [OF run m] h]
  obtain res post where rnd: "rnd = KFetched km # KHandled (wrapped km) res # post"
    and post: "if res = Returns None then \<exists>ce logs. post = KCommit km ce # logs
               else committed_msgs post = []"
    by blast
  have "KHandled (wrapped km) res \<in> set tr"
    using m rnd by (intro in_concat_rounds [of rnd tr]) simp_all
  from Consume_handled_by_handler [OF run this]
  obtain w0 w1 where "dispatch e workerID ctx (wrapped km) w0 = (res, w1)" by blast
  with assms have "res = Returns None"
    using dispatch_no_handler [of e "wrapped km" workerID ctx w0] by (simp add: Topic_wrapped)
  with rnd post show "\<exists>ce logs. rnd = KFetched km # KHandled (wrapped km) (Returns None)
                                # KCommit km ce # logs"
    by auto
qed

theorem no_handler_is_success_witness:
  "Consume background (dispatch (example_engine 1) 0)
     [FetchMsg (order_msg 1) None, FetchMsg unknown_msg None] world0 =
     (Blocks,
      [KFetched (order_msg 1), KHandled (wrapped (order_msg 1)) (Returns None),
       KCommit (order_msg 1) None,
       KFetched unknown_msg, KHandled (wrapped unknown_msg) (Returns None),
       KCommit unknown_msg None],
      world0\<lparr>elog := [Log DebugLevel ''processing message''
                          [zap_String ''topic'' ''orders.events'', zap_Int ''worker'' 0],
                        Log WarnLevel ''no handler for topic''
                          [zap_String ''topic'' ''unknown.topic'']],
             invoked := [wrapped (order_msg 1)]\<rparr>) \<and>
   map_of (registrations (example_engine 1)) (kTopic unknown_msg) = None \<and>
   dispatch (example_engine 1) 0 background (wrapped unknown_msg) world0 =
     (Returns None,
      world0\<lparr>elog := [Log WarnLevel ''no handler for topic''
                          [zap_String ''topic'' ''unknown.topic'']]\<rparr>)"
proof -
  let ?tr = "[KFetched (order_msg 1), KHandled (wrapped (order_msg 1)) (Returns None),
       KCommit (order_msg 1) None,
       KFetched unknown_msg, KHandled (wrapped unknown_msg) (Returns None),
       KCommit unknown_msg None]"
  have un: "map_of (registrations (example_engine 1)) (kTopic unknown_msg) = None"
    by (simp add: registrations_example_engine unknown_msg_def)
  have run: "Consume background (dispatch (example_engine 1) 0)
     [FetchMsg (order_msg 1) None, FetchMsg unknown_msg None] world0 =
     (Blocks, ?tr,
      world0\<lparr>elog := [Log DebugLevel ''processing message''
                          [zap_String ''topic'' ''orders.events'', zap_Int ''worker'' 0],
                        Log WarnLevel ''no handler for topic''
                          [zap_String ''topic'' ''unknown.topic'']],
             invoked := [wrapped (order_msg 1)]\<rparr>)"
    by (simp add: dispatch_def registrations_example_engine unknown_msg_def order_msg_def
        wrapped_def logger_def world0_def always_ok_def)
  from no_handler_is_success [OF un, of 0 background] un run show ?thesis
    by (simp add: world0_def unknown_msg_def)
qed

text \<open>The waits of a worker loop: wait number \<open>i\<close> (from 0) is \<open>min (2 ^ i) 32\<close> seconds.\<close>

lemma consumeLoop_for_waits:
  "consumeLoop_for e ctx workerID backoff ps c w = (r, waits, c', w') \<Longrightarrow> i < length waits \<Longrightarrow>
     waits ! i = (next_backoff ^^ i) backoff"
proof (induction ps arbitrary: backoff c w r waits c' w' i)
  case Nil
  then show ?case by simp
next
  case (Cons p ps)
  show ?case
  proof (cases i)
    case 0
    with Cons.prems show ?thesis
      by (auto simp: Let_def split: if_splits prod.splits outcome.splits option.splits select_case.splits)
  next
    case (Suc j)
    from Cons.prems Suc obtain c1 w2 r0 waits0 where
      rec: "consumeLoop_for e ctx workerID (next_backoff backoff) ps c1 w2 = (r0, waits0, c', w')"
      and waits: "waits = backoff # waits0"
      by (auto simp: Let_def next_backoff_def
          split: if_splits prod.splits outcome.splits option.splits select_case.splits)
    from Cons.prems(2) Suc waits have j: "j < length waits0" by simp
    from Cons.IH [OF rec j] show ?thesis
      by (simp add: waits Suc funpow_swap1)
  qed
qed

lemma next_backoff_Second:
  "(next_backoff ^^ i) Second = (if i < 5 then 2 ^ i else 32) * Second"
proof (induction i)
  case 0
  then show ?case by simp
next
  case (Suc i)
  have step: "(next_backoff ^^ Suc i) Second = next_backoff ((if i < 5 then 2 ^ i else 32) * Second)"
    using Suc by simp
  consider "i < 4" | "i = 4" | "4 < i" by linarith
  then show ?case
  proof cases
    case 1
    then have "(2::int) ^ i \<le> 2 ^ 3" by (intro power_increasing) simp_all
    with 1 show ?thesis unfolding step by (simp add: next_backoff_def Second_def)
  next
    case 2
    then show ?thesis unfolding step by (simp add: next_backoff_def Second_def)
  next
    case 3
    then show ?thesis unfolding step by (simp add: next_backoff_def Second_def)
  qed
qed

lemma consumeLoop_waits:
  "consumeLoop e ctx workerID ps c w = (r, waits, c', w') \<Longrightarrow> i < length waits \<Longrightarrow>
     waits ! i = (if i < 5 then 2 ^ i else 32) * Second"
  unfolding consumeLoop_def
  by (simp add: consumeLoop_for_waits next_backoff_Second)

text \<open>
  Claim C2 at six consecutive failures: a client whose \<^verbatim>\<open>Consume\<close> fails each time with an
  error that is no cancellation, and a run context that stays live. The loop waits 1, 2, 4,
  8, 16 and then 32 seconds: the sixth wait is above 30 seconds.
\<close>

theorem backoff_exceeds_ceiling:
  "consumeLoop broken_engine background 0
     [timer_fires, timer_fires, timer_fires, timer_fires, timer_fires, timer_fires] () world0 =
     (None,
      [1000000000, 2000000000, 4000000000, 8000000000, 16000000000, 32000000000],
      (),
      world0\<lparr>elog := replicate 6
         (Log ErrorLevel ''consume loop error'' [zap_Error (ErrorString ''connection refused'')])\<rparr>) \<and>
   30 * Second < 32000000000"
  by (simp add: consumeLoop_def broken_engine_def NewEngine_def broken_client_def timer_fires_def
      logger_def world0_def Second_def numeral_eq_Suc)

end
